theory Spec2Isabelle
  imports Complex_Main
begin

section \<open>The command-line front end (\<^verbatim>\<open>ufish/cli.py\<close>)\<close>

text \<open>
  \<^verbatim>\<open>UFishCLI\<close> keeps one flag of its own, \<^verbatim>\<open>_weights_loaded\<close>, and delegates every
  piece of work to collaborators: the \<^verbatim>\<open>UFish\<close> object in \<^verbatim>\<open>self._ufish\<close>, the image reader
  and writer of scikit-image, the CSV writer of the data frame, and the file system.
  The model makes each collaborator call an event. An instance carries its flag and the
  list of events it has issued so far; what a collaborator answers is given by a
  \<open>world\<close>, a function of the history and of the call, so that the same call may succeed
  once and raise the next time. The reply \<open>Raise\<close> is an exception; so is a reply of a kind
  the caller cannot use (an image is expected from \<^verbatim>\<open>imread\<close>, a table from a spot caller).
  A method returns \<open>Returned\<close> or \<open>Raised\<close> together with the instance as it is then: an
  exception leaves the flag and the history as they were when it was raised. Logging is
  left out.
\<close>

type_synonym path = string

type_synonym image = "real list list"

text \<open>A coordinate is \<open>None\<close> where the quotient defining it has a zero denominator.\<close>

record spot =
  axis_0 :: "real option"
  axis_1 :: "real option"
  intensity :: real

type_synonym result_table = "spot list"

text \<open>\<^verbatim>\<open>binary_threshold: Union[str, float]\<close>\<close>

datatype threshold = Named string | Fixed real

datatype call =
    UF_load_weights path
  | UF_load_weights_from_internet "string option" int bool
  | UF_enhance_img image
  | UF_call_spots_cc_center image threshold int
  | UF_call_spots_local_maxima image int real
  | UF_pred_2d image int real
  | Imread path
  | Imsave path image
  | To_csv result_table path
  | Mkdir path
  | Iterdir path

datatype reply =
    Unit
  | Img image
  | Tbl result_table
  | TblImg result_table image
  | Names "string list"
  | Raise

type_synonym world = "call list \<Rightarrow> call \<Rightarrow> reply"

record cli =
  weights_loaded :: bool
  calls :: "call list"

datatype outcome = Returned | Raised


definition perform :: "world \<Rightarrow> call \<Rightarrow> cli \<Rightarrow> reply \<times> cli" where
  "perform w c s = (w (calls s) c, s\<lparr>calls := calls s @ [c]\<rparr>)"

text \<open>
  \<^verbatim>\<open>
  if weights_path is not None:
      self._ufish.load_weights(weights_path)
  else:
      self._ufish.load_weights_from_internet(
          weights_file=weights_file, max_retry=max_retry, force_download=force_download)
  self._weights_loaded = True
  \<close>
\<close>

definition load_weights ::
  "world \<Rightarrow> path option \<Rightarrow> string option \<Rightarrow> int \<Rightarrow> bool \<Rightarrow> cli \<Rightarrow> outcome \<times> cli" where
  "load_weights w weights_path weights_file max_retry force_download s =
     (case perform w
             (case weights_path of
                Some p \<Rightarrow> UF_load_weights p
              | None \<Rightarrow> UF_load_weights_from_internet weights_file max_retry force_download) s of
        (Raise, s1) \<Rightarrow> (Raised, s1)
      | (_, s1) \<Rightarrow> (Returned, s1\<lparr>weights_loaded := True\<rparr>))"

text \<open>
  \<^verbatim>\<open>if not self._weights_loaded: self.load_weights()\<close>, with the defaults
  \<^verbatim>\<open>weights_path=None, weights_file=None, max_retry=8, force_download=False\<close>.
\<close>

definition ensure_weights :: "world \<Rightarrow> cli \<Rightarrow> outcome \<times> cli" where
  "ensure_weights w s =
     (if \<not> weights_loaded s then load_weights w None None 8 False s else (Returned, s))"

definition enhance_img :: "world \<Rightarrow> path \<Rightarrow> path \<Rightarrow> cli \<Rightarrow> outcome \<times> cli" where
  "enhance_img w input_img_path output_img_path s =
     (case ensure_weights w s of
        (Raised, s1) \<Rightarrow> (Raised, s1)
      | (Returned, s1) \<Rightarrow>
          (case perform w (Imread input_img_path) s1 of
             (Img img, s2) \<Rightarrow>
               (case perform w (UF_enhance_img img) s2 of
                  (Img enhanced, s3) \<Rightarrow>
                    (case perform w (Imsave output_img_path enhanced) s3 of
                       (Raise, s4) \<Rightarrow> (Raised, s4)
                     | (_, s4) \<Rightarrow> (Returned, s4))
                | (_, s3) \<Rightarrow> (Raised, s3))
           | (_, s2) \<Rightarrow> (Raised, s2)))"

definition call_spots_cc_center ::
  "world \<Rightarrow> path \<Rightarrow> path \<Rightarrow> threshold \<Rightarrow> int \<Rightarrow> cli \<Rightarrow> outcome \<times> cli" where
  "call_spots_cc_center w enhanced_img_path output_csv_path binary_threshold cc_size_thresh s =
     (case perform w (Imread enhanced_img_path) s of
        (Img img, s1) \<Rightarrow>
          (case perform w (UF_call_spots_cc_center img binary_threshold cc_size_thresh) s1 of
             (Tbl pred_df, s2) \<Rightarrow>
               (case perform w (To_csv pred_df output_csv_path) s2 of
                  (Raise, s3) \<Rightarrow> (Raised, s3)
                | (_, s3) \<Rightarrow> (Returned, s3))
           | (_, s2) \<Rightarrow> (Raised, s2))
      | (_, s1) \<Rightarrow> (Raised, s1))"

definition call_spots_local_maxima ::
  "world \<Rightarrow> path \<Rightarrow> path \<Rightarrow> int \<Rightarrow> real \<Rightarrow> cli \<Rightarrow> outcome \<times> cli" where
  "call_spots_local_maxima w enhanced_img_path output_csv_path connectivity intensity_threshold s =
     (case perform w (Imread enhanced_img_path) s of
        (Img img, s1) \<Rightarrow>
          (case perform w (UF_call_spots_local_maxima img connectivity intensity_threshold) s1 of
             (Tbl pred_df, s2) \<Rightarrow>
               (case perform w (To_csv pred_df output_csv_path) s2 of
                  (Raise, s3) \<Rightarrow> (Raised, s3)
                | (_, s3) \<Rightarrow> (Returned, s3))
           | (_, s2) \<Rightarrow> (Raised, s2))
      | (_, s1) \<Rightarrow> (Raised, s1))"

definition pred_2d_img ::
  "world \<Rightarrow> path \<Rightarrow> path \<Rightarrow> path option \<Rightarrow> int \<Rightarrow> real \<Rightarrow> cli \<Rightarrow> outcome \<times> cli" where
  "pred_2d_img w input_img_path output_csv_path enhanced_output_path connectivity
       intensity_threshold s =
     (case ensure_weights w s of
        (Raised, s1) \<Rightarrow> (Raised, s1)
      | (Returned, s1) \<Rightarrow>
          (case perform w (Imread input_img_path) s1 of
             (Img img, s2) \<Rightarrow>
               (case perform w (UF_pred_2d img connectivity intensity_threshold) s2 of
                  (TblImg pred_df enhanced, s3) \<Rightarrow>
                    (case perform w (To_csv pred_df output_csv_path) s3 of
                       (Raise, s4) \<Rightarrow> (Raised, s4)
                     | (_, s4) \<Rightarrow>
                         (case enhanced_output_path of
                            None \<Rightarrow> (Returned, s4)
                          | Some p \<Rightarrow>
                              (case perform w (Imsave p enhanced) s4 of
                                 (Raise, s5) \<Rightarrow> (Raised, s5)
                               | (_, s5) \<Rightarrow> (Returned, s5))))
                | (_, s3) \<Rightarrow> (Raised, s3))
           | (_, s2) \<Rightarrow> (Raised, s2)))"

text \<open>
  The two path functions of the standard library that \<^verbatim>\<open>pred_2d_imgs\<close> uses are
  parameters: \<open>splitext_root name\<close> is \<^verbatim>\<open>splitext(name)[0]\<close> and \<open>joinpath d n\<close> is
  \<^verbatim>\<open>str(Path(d) / n)\<close>.
\<close>

record pathlib =
  splitext_root :: "string \<Rightarrow> string"
  joinpath :: "path \<Rightarrow> string \<Rightarrow> path"

text \<open>The body of \<^verbatim>\<open>for input_path in in_dir_path.iterdir()\<close>, over the entry names.\<close>

fun pred_2d_imgs_loop ::
  "world \<Rightarrow> pathlib \<Rightarrow> path \<Rightarrow> path \<Rightarrow> bool \<Rightarrow> int \<Rightarrow> real \<Rightarrow> string list \<Rightarrow> cli
     \<Rightarrow> outcome \<times> cli" where
  "pred_2d_imgs_loop w lib input_dir output_dir save_enhanced_img connectivity
       intensity_threshold [] s = (Returned, s)"
| "pred_2d_imgs_loop w lib input_dir output_dir save_enhanced_img connectivity
       intensity_threshold (name # names) s =
     (let input_prefix = splitext_root lib name;
          output_path = joinpath lib output_dir (input_prefix @ ''.pred.csv'');
          enhanced_img_path = joinpath lib output_dir (input_prefix @ ''.enhanced.tif'')
      in case pred_2d_img w (joinpath lib input_dir name) output_path
                (if save_enhanced_img then Some enhanced_img_path else None)
                connectivity intensity_threshold s of
           (Raised, s1) \<Rightarrow> (Raised, s1)
         | (Returned, s1) \<Rightarrow>
             pred_2d_imgs_loop w lib input_dir output_dir save_enhanced_img connectivity
               intensity_threshold names s1)"

definition pred_2d_imgs ::
  "world \<Rightarrow> pathlib \<Rightarrow> path \<Rightarrow> path \<Rightarrow> bool \<Rightarrow> int \<Rightarrow> real \<Rightarrow> cli \<Rightarrow> outcome \<times> cli" where
  "pred_2d_imgs w lib input_dir output_dir save_enhanced_img connectivity intensity_threshold s =
     (case ensure_weights w s of
        (Raised, s1) \<Rightarrow> (Raised, s1)
      | (Returned, s1) \<Rightarrow>
          (case perform w (Mkdir output_dir) s1 of
             (Raise, s2) \<Rightarrow> (Raised, s2)
           | (_, s2) \<Rightarrow>
               (case perform w (Iterdir input_dir) s2 of
                  (Names names, s3) \<Rightarrow>
                    pred_2d_imgs_loop w lib input_dir output_dir save_enhanced_img connectivity
                      intensity_threshold names s3
                | (_, s3) \<Rightarrow> (Raised, s3))))"

subsection \<open>Sequences of commands on one instance\<close>





fun is_load :: "call \<Rightarrow> bool" where
  "is_load (UF_load_weights p) = True"
| "is_load (UF_load_weights_from_internet f m d) = True"
| "is_load c = False"


definition default_load :: call where
  "default_load = UF_load_weights_from_internet None 8 False"

subsection \<open>What one command adds to the history\<close>

text \<open>
  \<open>step_ok s r\<close>: the result \<open>r\<close> of a command started in \<open>s\<close> extends the history of
  \<open>s\<close>, first by the default load when the flag of \<open>s\<close> is false, then by calls that are
  not loads; and the flag is true afterwards when it was true before or the command returned.
\<close>

definition step_ok :: "cli \<Rightarrow> outcome \<times> cli \<Rightarrow> bool" where
  "step_ok s r \<longleftrightarrow>
     (\<exists>new. calls (snd r) = calls s @ (if weights_loaded s then [] else [default_load]) @ new
        \<and> filter is_load new = []
        \<and> (weights_loaded s \<or> fst r = Returned \<longrightarrow> weights_loaded (snd r)))"

lemma ensure_weights_cases:
  "(weights_loaded s \<and> ensure_weights w s = (Returned, s))
   \<or> (\<not> weights_loaded s \<and> ensure_weights w s = (Raised, s\<lparr>calls := calls s @ [default_load]\<rparr>))
   \<or> (\<not> weights_loaded s \<and> ensure_weights w s =
         (Returned, s\<lparr>calls := calls s @ [default_load], weights_loaded := True\<rparr>))"
  by (auto simp: ensure_weights_def load_weights_def perform_def default_load_def split: reply.splits)

lemma enhance_img_ok: "step_ok s (enhance_img w i out s)"
  using ensure_weights_cases [of s w]
  by (auto simp: step_ok_def enhance_img_def perform_def split: reply.splits)

lemma pred_2d_img_ok: "step_ok s (pred_2d_img w i out e c t s)"
  using ensure_weights_cases [of s w]
  by (auto simp: step_ok_def pred_2d_img_def perform_def split: reply.splits option.splits)

lemma step_ok_trans:
  assumes "step_ok s (Returned, s1)" and "step_ok s1 r"
  shows "step_ok s r"
proof -
  from assms(1) obtain n1 where n1:
    "calls s1 = calls s @ (if weights_loaded s then [] else [default_load]) @ n1"
    "filter is_load n1 = []" "weights_loaded s1"
    by (auto simp: step_ok_def)
  from assms(2) n1(3) obtain n2 where n2:
    "calls (snd r) = calls s1 @ n2" "filter is_load n2 = []" "weights_loaded (snd r)"
    by (auto simp: step_ok_def)
  have "calls (snd r) = calls s @ (if weights_loaded s then [] else [default_load]) @ (n1 @ n2)"
    using n1(1) n2(1) by simp
  moreover have "filter is_load (n1 @ n2) = []"
    using n1(2) n2(2) by simp
  ultimately show ?thesis
    unfolding step_ok_def using n2(3) by blast
qed

lemma step_ok_refl: "weights_loaded s \<Longrightarrow> step_ok s (x, s)"
  by (simp add: step_ok_def)

lemma step_ok_perform:
  "weights_loaded s \<Longrightarrow> \<not> is_load c \<Longrightarrow> step_ok s (x, snd (perform w c s))"
  by (simp add: step_ok_def perform_def)

lemma pred_2d_imgs_loop_ok:
  "weights_loaded s \<Longrightarrow> step_ok s (pred_2d_imgs_loop w lib i out e c t names s)"
proof (induction names arbitrary: s)
  case Nil
  then show ?case by (simp add: step_ok_refl)
next
  case (Cons name names)
  let ?r = "pred_2d_img w (joinpath lib i name)
              (joinpath lib out (splitext_root lib name @ ''.pred.csv''))
              (if e then Some (joinpath lib out (splitext_root lib name @ ''.enhanced.tif''))
               else None) c t s"
  have ok: "step_ok s ?r" by (rule pred_2d_img_ok)
  show ?case
  proof (cases ?r)
    case (Pair x s1)
    show ?thesis
    proof (cases x)
      case Returned
      with Pair ok have s1: "step_ok s (Returned, s1)" by simp
      with Cons.prems have "weights_loaded s1" by (auto simp: step_ok_def)
      then have "step_ok s1 (pred_2d_imgs_loop w lib i out e c t names s1)"
        by (rule Cons.IH)
      with s1 have "step_ok s (pred_2d_imgs_loop w lib i out e c t names s1)"
        by (rule step_ok_trans)
      with Pair Returned show ?thesis by (simp add: Let_def)
    next
      case Raised
      with Pair ok show ?thesis by (simp add: Let_def)
    qed
  qed
qed

lemma pred_2d_imgs_ok: "step_ok s (pred_2d_imgs w lib i out e c t s)"
proof -
  consider (a) "weights_loaded s" "ensure_weights w s = (Returned, s)"
    | (b) "\<not> weights_loaded s"
          "ensure_weights w s = (Raised, s\<lparr>calls := calls s @ [default_load]\<rparr>)"
    | (c) "\<not> weights_loaded s"
          "ensure_weights w s =
             (Returned, s\<lparr>calls := calls s @ [default_load], weights_loaded := True\<rparr>)"
    using ensure_weights_cases [of s w] by blast
  then show ?thesis
  proof cases
    case a
    have *: "step_ok s (pred_2d_imgs_loop w lib i out e c t names
                 (snd (perform w (Iterdir i) (snd (perform w (Mkdir out) s)))))" for names
    proof -
      let ?s2 = "snd (perform w (Mkdir out) s)"
      let ?s3 = "snd (perform w (Iterdir i) ?s2)"
      have f2: "weights_loaded ?s2" and f3: "weights_loaded ?s3"
        using a(1) by (simp_all add: perform_def)
      have "step_ok s (Returned, ?s2)" using a(1) by (simp add: step_ok_perform)
      moreover have "step_ok ?s2 (Returned, ?s3)" using f2 by (simp add: step_ok_perform)
      ultimately have "step_ok s (Returned, ?s3)" by (rule step_ok_trans)
      moreover have "step_ok ?s3 (pred_2d_imgs_loop w lib i out e c t names ?s3)"
        using f3 by (rule pred_2d_imgs_loop_ok)
      ultimately show ?thesis by (rule step_ok_trans)
    qed
    show ?thesis
      using a * by (auto simp: pred_2d_imgs_def step_ok_def perform_def split: reply.splits)
  next
    case b
    then show ?thesis by (simp add: pred_2d_imgs_def step_ok_def)
  next
    case c
    let ?s1 = "s\<lparr>calls := calls s @ [default_load], weights_loaded := True\<rparr>"
    have s1: "step_ok s (Returned, ?s1)" using c(1) by (simp add: step_ok_def)
    have *: "step_ok ?s1 (pred_2d_imgs_loop w lib i out e c t names
                 (snd (perform w (Iterdir i) (snd (perform w (Mkdir out) ?s1)))))" for names
    proof -
      let ?s2 = "snd (perform w (Mkdir out) ?s1)"
      let ?s3 = "snd (perform w (Iterdir i) ?s2)"
      have f2: "weights_loaded ?s2" and f3: "weights_loaded ?s3"
        by (simp_all add: perform_def)
      have "step_ok ?s1 (Returned, ?s2)" by (simp add: step_ok_perform)
      moreover have "step_ok ?s2 (Returned, ?s3)" using f2 by (simp add: step_ok_perform)
      ultimately have "step_ok ?s1 (Returned, ?s3)" by (rule step_ok_trans)
      moreover have "step_ok ?s3 (pred_2d_imgs_loop w lib i out e c t names ?s3)"
        using f3 by (rule pred_2d_imgs_loop_ok)
      ultimately show ?thesis by (rule step_ok_trans)
    qed
    have "step_ok ?s1 (pred_2d_imgs w lib i out e c t s)"
      using c * by (auto simp: pred_2d_imgs_def step_ok_def perform_def split: reply.splits)
    with s1 show ?thesis by (rule step_ok_trans)
  qed
qed





subsection \<open>A world in which every collaborator answers\<close>





subsection \<open>Where the weights come from\<close>

text \<open>
  Claim C10. \<^verbatim>\<open>load_weights\<close> with a \<^verbatim>\<open>weights_path\<close> issues exactly one collaborator call,
  the load from that local path, and its whole result does not depend on \<^verbatim>\<open>weights_file\<close>,
  \<^verbatim>\<open>max_retry\<close> or \<^verbatim>\<open>force_download\<close>; with no \<^verbatim>\<open>weights_path\<close> it issues exactly one
  call, the download from the internet with the three arguments as given.
\<close>

theorem load_weights_source:
  "calls (snd (load_weights w (Some p) weights_file max_retry force_download s))
     = calls s @ [UF_load_weights p]
   \<and> load_weights w (Some p) weights_file max_retry force_download s
     = load_weights w (Some p) weights_file' max_retry' force_download' s
   \<and> calls (snd (load_weights w None weights_file max_retry force_download s))
     = calls s @ [UF_load_weights_from_internet weights_file max_retry force_download]"
  by (simp add: load_weights_def perform_def split: reply.splits)

lemma step_ok_first_load:
  assumes "step_ok s r" and "\<not> weights_loaded s"
  shows "take (Suc (length (calls s))) (calls (snd r)) = calls s @ [default_load]"
  using assms by (auto simp: step_ok_def)

subsection \<open>The flag and the spot-calling commands\<close>

text \<open>
  Claim C8. The two spot-calling commands neither read nor write the flag: started with
  any value \<open>f\<close> of the flag they give the same outcome and the same history, and the
  flag is \<open>f\<close> afterwards; the calls they add to the history hold no load. The three
  commands that do load implicitly are \<^verbatim>\<open>enhance_img\<close>, \<^verbatim>\<open>pred_2d_img\<close> and
  \<^verbatim>\<open>pred_2d_imgs\<close>: started with the flag false, the first call each of them adds is the
  default load.
\<close>

theorem spot_calling_leaves_weights:
  "call_spots_cc_center w i out b t (s\<lparr>weights_loaded := f\<rparr>)
     = (fst (call_spots_cc_center w i out b t s),
        (snd (call_spots_cc_center w i out b t s))\<lparr>weights_loaded := f\<rparr>)
   \<and> weights_loaded (snd (call_spots_cc_center w i out b t s)) = weights_loaded s
   \<and> take (length (calls s)) (calls (snd (call_spots_cc_center w i out b t s))) = calls s
   \<and> filter is_load (drop (length (calls s)) (calls (snd (call_spots_cc_center w i out b t s)))) = []
   \<and> call_spots_local_maxima w i out k v (s\<lparr>weights_loaded := f\<rparr>)
     = (fst (call_spots_local_maxima w i out k v s),
        (snd (call_spots_local_maxima w i out k v s))\<lparr>weights_loaded := f\<rparr>)
   \<and> weights_loaded (snd (call_spots_local_maxima w i out k v s)) = weights_loaded s
   \<and> take (length (calls s)) (calls (snd (call_spots_local_maxima w i out k v s))) = calls s
   \<and> filter is_load (drop (length (calls s)) (calls (snd (call_spots_local_maxima w i out k v s)))) = []
   \<and> take (Suc (length (calls s))) (calls (snd (enhance_img w i out (s\<lparr>weights_loaded := False\<rparr>))))
     = calls s @ [default_load]
   \<and> take (Suc (length (calls s)))
        (calls (snd (pred_2d_img w i out e k v (s\<lparr>weights_loaded := False\<rparr>))))
     = calls s @ [default_load]
   \<and> take (Suc (length (calls s)))
        (calls (snd (pred_2d_imgs w lib i out sv k v (s\<lparr>weights_loaded := False\<rparr>))))
     = calls s @ [default_load]"
proof -
  have spots: "call_spots_cc_center w i out b t (s\<lparr>weights_loaded := f\<rparr>)
     = (fst (call_spots_cc_center w i out b t s),
        (snd (call_spots_cc_center w i out b t s))\<lparr>weights_loaded := f\<rparr>)
   \<and> weights_loaded (snd (call_spots_cc_center w i out b t s)) = weights_loaded s
   \<and> take (length (calls s)) (calls (snd (call_spots_cc_center w i out b t s))) = calls s
   \<and> filter is_load (drop (length (calls s)) (calls (snd (call_spots_cc_center w i out b t s)))) = []
   \<and> call_spots_local_maxima w i out k v (s\<lparr>weights_loaded := f\<rparr>)
     = (fst (call_spots_local_maxima w i out k v s),
        (snd (call_spots_local_maxima w i out k v s))\<lparr>weights_loaded := f\<rparr>)
   \<and> weights_loaded (snd (call_spots_local_maxima w i out k v s)) = weights_loaded s
   \<and> take (length (calls s)) (calls (snd (call_spots_local_maxima w i out k v s))) = calls s
   \<and> filter is_load (drop (length (calls s)) (calls (snd (call_spots_local_maxima w i out k v s)))) = []"
    by (simp add: call_spots_cc_center_def call_spots_local_maxima_def perform_def
             split: reply.splits)
  have loads: "take (Suc (length (calls s))) (calls (snd (enhance_img w i out (s\<lparr>weights_loaded := False\<rparr>))))
     = calls s @ [default_load]
   \<and> take (Suc (length (calls s)))
        (calls (snd (pred_2d_img w i out e k v (s\<lparr>weights_loaded := False\<rparr>))))
     = calls s @ [default_load]
   \<and> take (Suc (length (calls s)))
        (calls (snd (pred_2d_imgs w lib i out sv k v (s\<lparr>weights_loaded := False\<rparr>))))
     = calls s @ [default_load]"
    using step_ok_first_load [OF enhance_img_ok, of "s\<lparr>weights_loaded := False\<rparr>" w i out]
      step_ok_first_load [OF pred_2d_img_ok, of "s\<lparr>weights_loaded := False\<rparr>" w i out e k v]
      step_ok_first_load [OF pred_2d_imgs_ok, of "s\<lparr>weights_loaded := False\<rparr>" w lib i out sv k v]
    by simp
  from spots loads show ?thesis by simp
qed




subsection \<open>How often the weights are loaded\<close>








section \<open>The spot callers (\<^verbatim>\<open>ufish/api.py\<close>, modelled from the specification)\<close>

text \<open>
  \<^verbatim>\<open>UFishCLI.call_spots_cc_center\<close> and \<^verbatim>\<open>UFishCLI.call_spots_local_maxima\<close> hand the image
  to the methods of the same names of \<^verbatim>\<open>self._ufish\<close>. Class \<^verbatim>\<open>UFish\<close> lives in
  \<^verbatim>\<open>ufish/api.py\<close>, which is not among the source files, so the two callers are modelled
  from sections 3 and 4 of the specification. Intensities are real numbers and the
  arithmetic is exact. An image is the list of its rows; a cell is a pixel, that is
  (axis-0, axis-1), with its intensity.
\<close>

type_synonym pixel = "nat \<times> nat"

type_synonym cell = "pixel \<times> real"

subsection \<open>Labelling connected sets\<close>

text \<open>Modelled from the spec: the labelling step of both callers (``label connected components of the
  mask'', ``flood-fill grouping''), whose code is in \<^verbatim>\<open>ufish/api.py\<close>. \<open>grow R found rest\<close>
  moves from \<open>rest\<close> to \<open>found\<close> every element linked by \<open>R\<close> to one already found, until
  nothing more is linked; it returns the grown group and what is left, both in their
  original order.
\<close>

function grow :: "('a \<Rightarrow> 'a \<Rightarrow> bool) \<Rightarrow> 'a list \<Rightarrow> 'a list \<Rightarrow> 'a list \<times> 'a list" where
  "grow R found rest =
     (let near = filter (\<lambda>b. list_ex (\<lambda>a. R a b) found) rest;
          far = filter (\<lambda>b. \<not> list_ex (\<lambda>a. R a b) found) rest
      in if near = [] then (found, rest) else grow R (found @ near) far)"
  by pat_completeness auto
termination
proof (relation "measure (\<lambda>(R, found, rest). length rest)")
  show "wf (measure (\<lambda>(R, found, rest). length rest))" by simp
next
  fix R :: "'a \<Rightarrow> 'a \<Rightarrow> bool" and found rest near far
  assume near: "near = filter (\<lambda>b. list_ex (\<lambda>a. R a b) found) rest"
    and far: "far = filter (\<lambda>b. \<not> list_ex (\<lambda>a. R a b) found) rest"
    and ne: "near \<noteq> []"
  have "length near + length far = length rest"
    unfolding near far by (rule sum_length_filter_compl)
  with ne show "((R, found @ near, far), (R, found, rest)) \<in> measure (\<lambda>(R, found, rest). length rest)"
    by (cases near) auto
qed

declare grow.simps [simp del]

lemma grow_unfold:
  "grow R found rest =
     (if filter (\<lambda>b. list_ex (\<lambda>a. R a b) found) rest = [] then (found, rest)
      else grow R (found @ filter (\<lambda>b. list_ex (\<lambda>a. R a b) found) rest)
             (filter (\<lambda>b. \<not> list_ex (\<lambda>a. R a b) found) rest))"
  by (subst grow.simps) (simp add: Let_def)

lemma grow_length: "length (snd (grow R found rest)) \<le> length rest"
proof (induction R found rest rule: grow.induct)
  case (1 R found rest)
  let ?near = "filter (\<lambda>b. list_ex (\<lambda>a. R a b) found) rest"
  let ?far = "filter (\<lambda>b. \<not> list_ex (\<lambda>a. R a b) found) rest"
  show ?case
  proof (cases "?near = []")
    case True
    then show ?thesis by (simp add: grow_unfold [of R found rest])
  next
    case False
    have eq: "grow R found rest = grow R (found @ ?near) ?far"
      using False by (simp add: grow_unfold [of R found rest])
    from False "1.IH" have "length (snd (grow R (found @ ?near) ?far)) \<le> length ?far"
      by simp
    also have "length ?far \<le> length rest" by simp
    finally show ?thesis by (simp only: eq)
  qed
qed

text \<open>Modelled from the spec: the deterministic raster-scan labelling of section 4.2, step 6, whose code is
  in \<^verbatim>\<open>ufish/api.py\<close>. The first element not yet labelled seeds the next group, so the
  groups come in the order of their first element.
\<close>

function label_components :: "('a \<Rightarrow> 'a \<Rightarrow> bool) \<Rightarrow> 'a list \<Rightarrow> 'a list list" where
  "label_components R [] = []"
| "label_components R (a # as) =
     (case grow R [a] as of (found, rest) \<Rightarrow> found # label_components R rest)"
  by pat_completeness auto
termination
proof (relation "measure (\<lambda>(R, as). length as)")
  show "wf (measure (\<lambda>(R, as). length as))" by simp
next
  fix R :: "'a \<Rightarrow> 'a \<Rightarrow> bool" and a as x found rest
  assume "(found, rest) = grow R [a] as"
  then have "rest = snd (grow R [a] as)" by (metis snd_conv)
  then show "((R, rest), (R, a # as)) \<in> measure (\<lambda>(R, as). length as)"
    using grow_length [of R "[a]" as] by simp
qed

text \<open>Modelled from the spec: the adjacency of the data model (``a maximal connected set of foreground
  pixels''), restricted to the pixels at hand: \<open>links R U\<close> are the pairs of \<open>U\<close> related by
  \<open>R\<close>.
\<close>

definition links :: "('a \<Rightarrow> 'a \<Rightarrow> bool) \<Rightarrow> 'a set \<Rightarrow> ('a \<times> 'a) set" where
  "links R U = {(a, b). a \<in> U \<and> b \<in> U \<and> R a b}"

text \<open>Modelled from the spec: the connected set of one element: everything reached from it along links.
\<close>

definition component_of :: "('a \<Rightarrow> 'a \<Rightarrow> bool) \<Rightarrow> 'a set \<Rightarrow> 'a \<Rightarrow> 'a set" where
  "component_of R U a = {b. (a, b) \<in> (links R U)\<^sup>*}"

text \<open>Modelled from the spec: the ConnectedComponents of a set, its maximal connected subsets.
\<close>

definition components :: "('a \<Rightarrow> 'a \<Rightarrow> bool) \<Rightarrow> 'a set \<Rightarrow> 'a set set" where
  "components R U = component_of R U ` U"

subsection \<open>Images, masks and neighbourhoods\<close>

text \<open>Modelled from the spec: the raster scan of one row of an Image, from column \<open>c\<close> on.
\<close>

fun row_cells :: "nat \<Rightarrow> nat \<Rightarrow> real list \<Rightarrow> cell list" where
  "row_cells r c [] = []"
| "row_cells r c (v # vs) = ((r, c), v) # row_cells r (Suc c) vs"

text \<open>Modelled from the spec: the raster scan of the rows of an Image, from row \<open>r\<close> on.
\<close>

fun cells_from :: "nat \<Rightarrow> image \<Rightarrow> cell list" where
  "cells_from r [] = []"
| "cells_from r (row # rows) = row_cells r 0 row @ cells_from (Suc r) rows"

text \<open>Modelled from the spec: the pixels of an Image with their intensities, in row-major order.
\<close>

definition cells :: "image \<Rightarrow> cell list" where
  "cells img = cells_from 0 img"

text \<open>Modelled from the spec: the neighbourhood of section 4.3, step 1: \<open>connectivity\<close> 1 is city-block
  distance 1 (axis-aligned neighbours), 2 adds the diagonals (8-connectivity in 2D). Two
  distinct pixels are adjacent when they differ by at most one on each axis and their
  city-block distance is at most \<open>connectivity\<close>.
\<close>

definition adjacent :: "int \<Rightarrow> pixel \<Rightarrow> pixel \<Rightarrow> bool" where
  "adjacent connectivity p q =
     (let dr = \<bar>int (fst p) - int (fst q)\<bar>; dc = \<bar>int (snd p) - int (snd q)\<bar>
      in dr \<le> 1 \<and> dc \<le> 1 \<and> 0 < dr + dc \<and> dr + dc \<le> connectivity)"

text \<open>Modelled from the spec: the error taxonomy of section 7, as far as the callers can raise it.
\<close>

datatype error = InvalidThresholdMethod string

text \<open>Modelled from the spec: the threshold of section 4.1, an explicit cutoff or the automatic method named
  \<^verbatim>\<open>otsu\<close>; any other name is \<^verbatim>\<open>InvalidThresholdMethod\<close>. What Otsu's method computes
  for an image is the parameter \<open>otsu\<close>.
\<close>

definition threshold_value :: "(image \<Rightarrow> real) \<Rightarrow> image \<Rightarrow> threshold \<Rightarrow> error + real" where
  "threshold_value otsu img bt =
     (case bt of
        Fixed v \<Rightarrow> Inr v
      | Named m \<Rightarrow> if m = ''otsu'' then Inr (otsu img) else Inl (InvalidThresholdMethod m))"

text \<open>Modelled from the spec: \<^verbatim>\<open>binarize(image, threshold) -> BinaryMask\<close> of section 4.1: a pixel is
  foreground when its intensity is strictly greater than the threshold.
\<close>

definition binarize :: "image \<Rightarrow> real \<Rightarrow> bool list list" where
  "binarize img thr = map (map (\<lambda>v. thr < v)) img"

text \<open>Modelled from the spec: the foreground pixels of a mask of the image's shape, in raster order, each
  with its intensity in the image before thresholding.
\<close>

definition foreground :: "image \<Rightarrow> bool list list \<Rightarrow> cell list" where
  "foreground img binary_mask = filter (\<lambda>((r, c), v). binary_mask ! r ! c) (cells img)"

text \<open>Modelled from the spec: the division of the centroid formulas. The specification does not say what a
  zero denominator gives; the model says \<open>None\<close>.
\<close>

definition quotient :: "real \<Rightarrow> real \<Rightarrow> real option" where
  "quotient a b = (if b = 0 then None else Some (a / b))"

subsection \<open>The connected-component caller\<close>

text \<open>Modelled from the spec: section 4.2, step 4: the centroid on one axis,
  \<^verbatim>\<open>sum(coord_axis * intensity) / sum(intensity)\<close> over the pixels of the component.
\<close>

definition weighted_centroid :: "(pixel \<Rightarrow> nat) \<Rightarrow> cell list \<Rightarrow> real option" where
  "weighted_centroid axis cs =
     quotient (sum_list (map (\<lambda>(p, v). real (axis p) * v) cs)) (sum_list (map snd cs))"

text \<open>Modelled from the spec: the Spot of a component (section 4.2, steps 4 and 5). Step 5 leaves the
  reported intensity to the implementation; it is the parameter \<open>inten\<close>.
\<close>

definition cc_spot :: "(cell list \<Rightarrow> real) \<Rightarrow> cell list \<Rightarrow> spot" where
  "cc_spot inten cs =
     \<lparr>axis_0 = weighted_centroid fst cs, axis_1 = weighted_centroid snd cs,
      intensity = inten cs\<rparr>"

text \<open>Modelled from the spec: section 4.2, step 2: 8-connectivity, diagonal neighbours count.
\<close>

definition connected_8 :: "cell \<Rightarrow> cell \<Rightarrow> bool" where
  "connected_8 a b = adjacent 2 (fst a) (fst b)"

text \<open>Modelled from the spec: \<^verbatim>\<open>UFish.call_spots_cc_center\<close>, the ConnectedComponentCaller of section 4.2:
  binarize, label, discard the components with fewer than \<^verbatim>\<open>cc_size_thresh\<close> pixels, emit one
  Spot per surviving component in label order.
\<close>

definition ufish_call_spots_cc_center ::
  "(image \<Rightarrow> real) \<Rightarrow> (image \<Rightarrow> cell list \<Rightarrow> real) \<Rightarrow> image \<Rightarrow> threshold \<Rightarrow> int
     \<Rightarrow> error + result_table" where
  "ufish_call_spots_cc_center otsu inten img binary_threshold cc_size_thresh =
     (case threshold_value otsu img binary_threshold of
        Inl e \<Rightarrow> Inl e
      | Inr thr \<Rightarrow>
          Inr (map (cc_spot (inten img))
                 (filter (\<lambda>cs. cc_size_thresh \<le> int (length cs))
                    (label_components connected_8 (foreground img (binarize img thr))))))"

subsection \<open>The local-maxima caller\<close>

text \<open>Modelled from the spec: the in-bounds neighbours of a pixel (section 4.3, steps 1 and 3).
\<close>

definition neighbours :: "image \<Rightarrow> int \<Rightarrow> cell \<Rightarrow> cell list" where
  "neighbours img connectivity a = filter (\<lambda>b. adjacent connectivity (fst a) (fst b)) (cells img)"

text \<open>Modelled from the spec: section 4.3, step 1: the intensity is greater than or equal to that of every
  neighbour and exceeds \<^verbatim>\<open>intensity_threshold\<close>.
\<close>

definition is_local_max :: "image \<Rightarrow> int \<Rightarrow> real \<Rightarrow> cell \<Rightarrow> bool" where
  "is_local_max img connectivity intensity_threshold a \<longleftrightarrow>
     list_all (\<lambda>b. snd b \<le> snd a) (neighbours img connectivity a)
     \<and> intensity_threshold < snd a"

text \<open>Modelled from the spec: the local-maximum pixels of an image, in raster order.
\<close>

definition maxima :: "image \<Rightarrow> int \<Rightarrow> real \<Rightarrow> cell list" where
  "maxima img connectivity intensity_threshold =
     filter (is_local_max img connectivity intensity_threshold) (cells img)"

text \<open>Modelled from the spec: section 4.3, step 2: adjacent pixels of equal intensity belong to one
  plateau.
\<close>

definition same_plateau :: "int \<Rightarrow> cell \<Rightarrow> cell \<Rightarrow> bool" where
  "same_plateau connectivity a b \<longleftrightarrow> adjacent connectivity (fst a) (fst b) \<and> snd a = snd b"

text \<open>Modelled from the spec: the plateau's centroid on one axis, the unweighted mean of the pixel
  coordinates.
\<close>

definition mean_coordinate :: "(pixel \<Rightarrow> nat) \<Rightarrow> cell list \<Rightarrow> real option" where
  "mean_coordinate axis cs =
     quotient (sum_list (map (\<lambda>(p, v). real (axis p)) cs)) (real (length cs))"

text \<open>Modelled from the spec: the Spot of a plateau (section 4.3, steps 2 and 4): its centroid and its
  intensity, that of its first pixel (a plateau is never empty, see
  \<open>label_components_correct\<close>).
\<close>

definition plateau_spot :: "cell list \<Rightarrow> spot" where
  "plateau_spot cs =
     \<lparr>axis_0 = mean_coordinate fst cs, axis_1 = mean_coordinate snd cs,
      intensity = (case cs of [] \<Rightarrow> 0 | a # _ \<Rightarrow> snd a)\<rparr>"

text \<open>Modelled from the spec: \<^verbatim>\<open>UFish.call_spots_local_maxima\<close>, the LocalMaximaCaller of section 4.3: one
  Spot per plateau of local maxima, in raster order of the plateau's first pixel.
\<close>

definition ufish_call_spots_local_maxima :: "image \<Rightarrow> int \<Rightarrow> real \<Rightarrow> result_table" where
  "ufish_call_spots_local_maxima img connectivity intensity_threshold =
     map plateau_spot
       (label_components (same_plateau connectivity)
          (maxima img connectivity intensity_threshold))"

subsection \<open>What the specification calls pixels, foreground and maxima\<close>

text \<open>Modelled from the spec: the pixels of an Image, as a set.
\<close>

definition image_cells :: "image \<Rightarrow> cell set" where
  "image_cells img = {((r, c), v). r < length img \<and> c < length (img ! r) \<and> v = img ! r ! c}"

text \<open>Modelled from the spec: the foreground of section 4.1, the pixels strictly above the threshold.
\<close>

definition foreground_cells :: "image \<Rightarrow> real \<Rightarrow> cell set" where
  "foreground_cells img thr = {a \<in> image_cells img. thr < snd a}"

text \<open>Modelled from the spec: the local maxima of section 4.3, step 1, as a set.
\<close>

definition local_maxima_cells :: "image \<Rightarrow> int \<Rightarrow> real \<Rightarrow> cell set" where
  "local_maxima_cells img k thr =
     {a \<in> image_cells img.
        (\<forall>b\<in>image_cells img. adjacent k (fst a) (fst b) \<longrightarrow> snd b \<le> snd a) \<and> thr < snd a}"

subsection \<open>Example images and parameters\<close>

text \<open>
  Two small images: a 3 by 3 flat patch of value 10 with a border of value 5, and two
  bright regions of two pixels and of one pixel on a background of 0.
\<close>

definition flat_patch :: image where
  "flat_patch =
     [[5, 5, 5, 5, 5],
      [5, 10, 10, 10, 5],
      [5, 10, 10, 10, 5],
      [5, 10, 10, 10, 5],
      [5, 5, 5, 5, 5]]"

definition two_blobs :: image where
  "two_blobs = [[0, 9, 0, 0], [0, 3, 0, 6]]"

text \<open>
  Stand-ins for the two parameters where an example needs them: an automatic threshold
  that is always 0, and the intensity of a component's first pixel.
\<close>

definition zero_level :: "image \<Rightarrow> real" where
  "zero_level img = 0"

definition first_value :: "image \<Rightarrow> cell list \<Rightarrow> real" where
  "first_value img cs = (case cs of [] \<Rightarrow> 0 | a # _ \<Rightarrow> snd a)"

subsection \<open>The labelling finds exactly the connected components\<close>

lemma grow_cases [consumes 0, case_names stop more]:
  assumes "filter (\<lambda>b. list_ex (\<lambda>a. R a b) found) rest = [] \<Longrightarrow>
             grow R found rest = (found, rest) \<Longrightarrow> P"
    and "filter (\<lambda>b. list_ex (\<lambda>a. R a b) found) rest \<noteq> [] \<Longrightarrow>
           grow R found rest =
             grow R (found @ filter (\<lambda>b. list_ex (\<lambda>a. R a b) found) rest)
               (filter (\<lambda>b. \<not> list_ex (\<lambda>a. R a b) found) rest) \<Longrightarrow> P"
  shows P
  using assms grow_unfold [of R found rest] by (cases "filter (\<lambda>b. list_ex (\<lambda>a. R a b) found) rest = []") simp_all

lemma grow_set:
  "set (fst (grow R found rest)) \<union> set (snd (grow R found rest)) = set found \<union> set rest"
proof (induction R found rest rule: grow.induct)
  case (1 R found rest)
  show ?case
  proof (cases rule: grow_cases [of R found rest])
    case stop
    then show ?thesis by simp
  next
    case more
    with "1.IH" show ?thesis by auto
  qed
qed

lemma grow_keeps: "set found \<subseteq> set (fst (grow R found rest))"
proof (induction R found rest rule: grow.induct)
  case (1 R found rest)
  show ?case
  proof (cases rule: grow_cases [of R found rest])
    case stop
    then show ?thesis by simp
  next
    case more
    with "1.IH" show ?thesis by auto
  qed
qed

lemma grow_closed:
  "a \<in> set (fst (grow R found rest)) \<Longrightarrow> b \<in> set (snd (grow R found rest)) \<Longrightarrow> \<not> R a b"
proof (induction R found rest rule: grow.induct)
  case (1 R found rest)
  show ?case
  proof (cases rule: grow_cases [of R found rest])
    case stop
    with "1.prems" have "a \<in> set found" "b \<in> set rest" by simp_all
    with stop(1) show ?thesis by (auto simp: filter_empty_conv list_ex_iff)
  next
    case more
    with "1.IH" "1.prems" show ?thesis by simp
  qed
qed

lemma grow_reached:
  "b \<in> set (fst (grow R found rest)) \<Longrightarrow>
     \<exists>a\<in>set found. (a, b) \<in> (links R (set found \<union> set rest))\<^sup>*"
proof (induction R found rest arbitrary: b rule: grow.induct)
  case (1 R found rest)
  let ?near = "filter (\<lambda>b. list_ex (\<lambda>a. R a b) found) rest"
  let ?far = "filter (\<lambda>b. \<not> list_ex (\<lambda>a. R a b) found) rest"
  show ?case
  proof (cases rule: grow_cases [of R found rest])
    case stop
    with "1.prems" show ?thesis by auto
  next
    case more
    have U: "set (found @ ?near) \<union> set ?far = set found \<union> set rest" by auto
    from more "1.prems" have "b \<in> set (fst (grow R (found @ ?near) ?far))" by simp
    with "1.IH" more(1) obtain c where c: "c \<in> set (found @ ?near)"
      and cb: "(c, b) \<in> (links R (set (found @ ?near) \<union> set ?far))\<^sup>*"
      by blast
    from cb U have cb': "(c, b) \<in> (links R (set found \<union> set rest))\<^sup>*" by simp
    show ?thesis
    proof (cases "c \<in> set found")
      case True
      with cb' show ?thesis by blast
    next
      case False
      with c have "c \<in> set rest" and "list_ex (\<lambda>a. R a c) found" by auto
      then obtain a where a: "a \<in> set found" "R a c" by (auto simp: list_ex_iff)
      with \<open>c \<in> set rest\<close> have "(a, c) \<in> links R (set found \<union> set rest)"
        by (simp add: links_def)
      from this cb' have "(a, b) \<in> (links R (set found \<union> set rest))\<^sup>*"
        by (rule converse_rtrancl_into_rtrancl)
      with a(1) show ?thesis by blast
    qed
  qed
qed

lemma grow_distinct:
  "distinct (found @ rest) \<Longrightarrow>
     distinct (fst (grow R found rest) @ snd (grow R found rest))"
proof (induction R found rest rule: grow.induct)
  case (1 R found rest)
  let ?near = "filter (\<lambda>b. list_ex (\<lambda>a. R a b) found) rest"
  let ?far = "filter (\<lambda>b. \<not> list_ex (\<lambda>a. R a b) found) rest"
  show ?case
  proof (cases rule: grow_cases [of R found rest])
    case stop
    with "1.prems" show ?thesis by simp
  next
    case more
    from "1.prems" have "distinct ((found @ ?near) @ ?far)" by auto
    with "1.IH" more show ?thesis by simp
  qed
qed


lemma links_mono: "W \<subseteq> U \<Longrightarrow> links R W \<subseteq> links R U"
  by (auto simp: links_def)

lemma links_sym: "symp R \<Longrightarrow> sym (links R U)"
  by (auto simp: links_def sym_def symp_def)

lemma component_of_self: "a \<in> component_of R U a"
  by (simp add: component_of_def)

lemma component_of_subset: "a \<in> U \<Longrightarrow> component_of R U a \<subseteq> U"
proof
  fix b
  assume a: "a \<in> U" and "b \<in> component_of R U a"
  then have "(a, b) \<in> (links R U)\<^sup>*" by (simp add: component_of_def)
  then show "b \<in> U"
    using a by (induction rule: rtrancl_induct) (auto simp: links_def)
qed

lemma component_of_eq:
  assumes "symp R" and "b \<in> component_of R U a"
  shows "component_of R U b = component_of R U a"
proof -
  from assms(2) have ab: "(a, b) \<in> (links R U)\<^sup>*" by (simp add: component_of_def)
  have "sym ((links R U)\<^sup>*)" using assms(1) by (intro sym_rtrancl links_sym)
  with ab have ba: "(b, a) \<in> (links R U)\<^sup>*" by (auto dest: symD)
  show ?thesis
  proof (rule set_eqI)
    fix c
    show "c \<in> component_of R U b \<longleftrightarrow> c \<in> component_of R U a"
      using ab ba by (auto simp: component_of_def intro: rtrancl_trans)
  qed
qed

lemma grow_seed:
  "set (fst (grow R [a] as)) = component_of R (insert a (set as)) a"
proof (rule set_eqI)
  fix b
  let ?g = "grow R [a] as"
  let ?U = "insert a (set as)"
  have U: "set (fst ?g) \<union> set (snd ?g) = ?U" using grow_set [of R "[a]" as] by simp
  show "b \<in> set (fst ?g) \<longleftrightarrow> b \<in> component_of R ?U a"
  proof
    assume "b \<in> set (fst ?g)"
    from grow_reached [OF this] show "b \<in> component_of R ?U a"
      by (simp add: component_of_def)
  next
    assume "b \<in> component_of R ?U a"
    then have "(a, b) \<in> (links R ?U)\<^sup>*" by (simp add: component_of_def)
    then show "b \<in> set (fst ?g)"
    proof (induction rule: rtrancl_induct)
      case base
      show ?case using grow_keeps [of "[a]" R as] by simp
    next
      case (step y z)
      from step.hyps(2) have z: "z \<in> ?U" and yz: "R y z" by (simp_all add: links_def)
      from grow_closed [OF step.IH _ ] yz have "z \<notin> set (snd ?g)" by blast
      with z U show ?case by blast
    qed
  qed
qed

lemma grow_rest_components:
  assumes "symp R" and b: "b \<in> set (snd (grow R [a] as))"
  shows "component_of R (set (snd (grow R [a] as))) b = component_of R (insert a (set as)) b"
proof -
  let ?g = "grow R [a] as"
  let ?U = "insert a (set as)"
  let ?W = "set (snd ?g)"
  have U: "set (fst ?g) \<union> ?W = ?U" using grow_set [of R "[a]" as] by simp
  then have WU: "?W \<subseteq> ?U" by blast
  show ?thesis
  proof (rule set_eqI)
    fix c
    show "c \<in> component_of R ?W b \<longleftrightarrow> c \<in> component_of R ?U b"
    proof
      assume "c \<in> component_of R ?W b"
      then have "(b, c) \<in> (links R ?W)\<^sup>*" by (simp add: component_of_def)
      with rtrancl_mono [OF links_mono [OF WU]] have "(b, c) \<in> (links R ?U)\<^sup>*" by blast
      then show "c \<in> component_of R ?U b" by (simp add: component_of_def)
    next
      assume "c \<in> component_of R ?U b"
      then have "(b, c) \<in> (links R ?U)\<^sup>*" by (simp add: component_of_def)
      then have "c \<in> ?W \<and> (b, c) \<in> (links R ?W)\<^sup>*"
      proof (induction rule: rtrancl_induct)
        case base
        with b show ?case by simp
      next
        case (step y z)
        from step.hyps(2) have z: "z \<in> ?U" and yz: "R y z" by (simp_all add: links_def)
        from yz assms(1) have zy: "R z y" by (auto simp: symp_def)
        from step.IH have y: "y \<in> ?W" by simp
        have "z \<notin> set (fst ?g)" using grow_closed [OF _ y] zy by blast
        with z U have zW: "z \<in> ?W" by blast
        with y yz have "(y, z) \<in> links R ?W" by (simp add: links_def)
        with step.IH have "(b, z) \<in> (links R ?W)\<^sup>*" by (auto intro: rtrancl_into_rtrancl)
        with zW show ?case by simp
      qed
      then show "c \<in> component_of R ?W b" by (simp add: component_of_def)
    qed
  qed
qed

lemma grow_components:
  assumes "symp R"
  shows "components R (insert a (set as))
           = insert (set (fst (grow R [a] as))) (components R (set (snd (grow R [a] as))))"
proof -
  let ?g = "grow R [a] as"
  let ?U = "insert a (set as)"
  let ?W = "set (snd ?g)"
  have U: "?U = set (fst ?g) \<union> ?W" using grow_set [of R "[a]" as] by simp
  have seed: "set (fst ?g) = component_of R ?U a" by (rule grow_seed)
  have "component_of R ?U ` set (fst ?g) = {set (fst ?g)}"
  proof -
    have "component_of R ?U x = set (fst ?g)" if "x \<in> set (fst ?g)" for x
      using that component_of_eq [OF assms, of x ?U a] seed by simp
    moreover have "a \<in> set (fst ?g)" using seed component_of_self [of a R ?U] by simp
    ultimately show ?thesis by auto
  qed
  moreover have "component_of R ?U ` ?W = component_of R ?W ` ?W"
    using grow_rest_components [OF assms] by (auto intro!: image_cong)
  ultimately have "component_of R ?U ` (set (fst ?g) \<union> ?W)
      = insert (set (fst ?g)) (component_of R ?W ` ?W)"
    by (simp add: image_Un)
  then show ?thesis unfolding components_def using U by simp
qed

lemma label_components_step:
  "label_components R (a # as)
     = fst (grow R [a] as) # label_components R (snd (grow R [a] as))"
  by (simp add: case_prod_unfold)

declare label_components.simps(2) [simp del]

theorem label_components_correct:
  "symp R \<Longrightarrow> distinct as \<Longrightarrow>
     set (map set (label_components R as)) = components R (set as)
     \<and> distinct (map set (label_components R as))
     \<and> (\<forall>c\<in>set (label_components R as). c \<noteq> [] \<and> distinct c \<and> set c \<subseteq> set as)"
proof (induction R as rule: label_components.induct)
  case (1 R)
  show ?case by (simp add: components_def)
next
  case (2 R a as)
  let ?g = "grow R [a] as"
  let ?W = "set (snd ?g)"
  from "2.prems" have symR: "symp R" and das: "distinct (a # as)" by simp_all
  from das have d: "distinct (fst ?g @ snd ?g)"
    using grow_distinct [of "[a]" as R] by simp
  then have dW: "distinct (snd ?g)" and dF: "distinct (fst ?g)"
    and disj: "set (fst ?g) \<inter> ?W = {}" by auto
  have aF: "a \<in> set (fst ?g)" using grow_keeps [of "[a]" R as] by simp
  have sub: "set (fst ?g) \<subseteq> insert a (set as)" "?W \<subseteq> insert a (set as)"
    using grow_set [of R "[a]" as] by auto
  have IH: "set (map set (label_components R (snd ?g))) = components R ?W
     \<and> distinct (map set (label_components R (snd ?g)))
     \<and> (\<forall>c\<in>set (label_components R (snd ?g)). c \<noteq> [] \<and> distinct c \<and> set c \<subseteq> ?W)"
    using "2.IH" [of "fst ?g" "snd ?g"] dW symR by simp
  have new: "set (fst ?g) \<notin> components R ?W"
  proof
    assume "set (fst ?g) \<in> components R ?W"
    then obtain b where "b \<in> ?W" "set (fst ?g) = component_of R ?W b"
      by (auto simp: components_def)
    with component_of_subset [of b ?W R] have "set (fst ?g) \<subseteq> ?W" by simp
    with aF disj show False by blast
  qed
  have c1: "set (map set (label_components R (a # as))) = components R (set (a # as))"
  proof -
    have "set (map set (label_components R (a # as)))
        = insert (set (fst ?g)) (set (map set (label_components R (snd ?g))))"
      by (simp add: label_components_step)
    also have "\<dots> = insert (set (fst ?g)) (components R ?W)"
      using IH by simp
    also have "\<dots> = components R (insert a (set as))"
      by (rule grow_components [OF symR, symmetric])
    finally show ?thesis by simp
  qed
  have c2: "distinct (map set (label_components R (a # as)))"
    using IH new by (simp add: label_components_step)
  have c3: "\<forall>c\<in>set (label_components R (a # as)).
              c \<noteq> [] \<and> distinct c \<and> set c \<subseteq> set (a # as)"
  proof
    fix c
    assume "c \<in> set (label_components R (a # as))"
    then consider "c = fst ?g" | "c \<in> set (label_components R (snd ?g))"
      by (auto simp: label_components_step)
    then show "c \<noteq> [] \<and> distinct c \<and> set c \<subseteq> set (a # as)"
    proof cases
      case 1
      with aF dF sub(1) show ?thesis by auto
    next
      case 2
      with IH have "c \<noteq> []" "distinct c" "set c \<subseteq> ?W" by blast+
      with sub(2) show ?thesis by auto
    qed
  qed
  from c1 c2 c3 show ?case by blast
qed

subsection \<open>Facts about images\<close>

lemma row_cells_mem:
  "((r', c'), v) \<in> set (row_cells r c vs)
     \<longleftrightarrow> r' = r \<and> c \<le> c' \<and> c' < c + length vs \<and> v = vs ! (c' - c)"
proof (induction vs arbitrary: c)
  case Nil
  show ?case by simp
next
  case (Cons w ws)
  show ?case
  proof (cases "c' = c")
    case True
    with Cons.IH [of "Suc c"] show ?thesis by auto
  next
    case False
    then have "c \<le> c' \<longleftrightarrow> Suc c \<le> c'" by auto
    moreover have "Suc c \<le> c' \<Longrightarrow> (w # ws) ! (c' - c) = ws ! (c' - Suc c)"
      by (simp add: Suc_diff_le)
    ultimately show ?thesis using False by (auto simp: Cons.IH)
  qed
qed

lemma row_cells_distinct: "distinct (map fst (row_cells r c vs))"
proof (induction vs arbitrary: c)
  case Nil
  show ?case by simp
next
  case (Cons w ws)
  have "(r, c) \<notin> fst ` set (row_cells r (Suc c) ws)"
    by (auto simp: row_cells_mem)
  with Cons.IH show ?case by simp
qed

lemma cells_from_mem:
  "((r', c'), v) \<in> set (cells_from r rows)
     \<longleftrightarrow> r \<le> r' \<and> r' < r + length rows \<and> c' < length (rows ! (r' - r))
         \<and> v = rows ! (r' - r) ! c'"
proof (induction rows arbitrary: r)
  case Nil
  show ?case by simp
next
  case (Cons row rows)
  show ?case
  proof (cases "r' = r")
    case True
    with Cons.IH [of "Suc r"] show ?thesis by (auto simp: row_cells_mem)
  next
    case False
    then have "r \<le> r' \<longleftrightarrow> Suc r \<le> r'" by auto
    moreover have "Suc r \<le> r' \<Longrightarrow> (row # rows) ! (r' - r) = rows ! (r' - Suc r)"
      by (simp add: Suc_diff_le)
    ultimately show ?thesis using False by (auto simp: Cons.IH row_cells_mem)
  qed
qed

lemma cells_from_distinct: "distinct (map fst (cells_from r rows))"
proof (induction rows arbitrary: r)
  case Nil
  show ?case by simp
next
  case (Cons row rows)
  have "fst ` set (row_cells r 0 row) \<inter> fst ` set (cells_from (Suc r) rows) = {}"
    by (auto simp: row_cells_mem cells_from_mem)
  with Cons.IH show ?case by (simp add: row_cells_distinct)
qed

lemma cells_mem:
  "((r, c), v) \<in> set (cells img) \<longleftrightarrow> r < length img \<and> c < length (img ! r) \<and> v = img ! r ! c"
  by (simp add: cells_def cells_from_mem)

lemma cells_distinct_pixels: "distinct (map fst (cells img))"
  by (simp add: cells_def cells_from_distinct)

lemma cells_distinct: "distinct (cells img)"
  using cells_distinct_pixels by (rule distinct_map [THEN iffD1, THEN conjunct1])

lemma foreground_mem:
  "a \<in> set (foreground img (binarize img thr)) \<longleftrightarrow> a \<in> set (cells img) \<and> thr < snd a"
proof (cases a)
  case (Pair p v)
  obtain r c where p: "p = (r, c)" by (cases p)
  show ?thesis
    unfolding Pair p by (auto simp: foreground_def binarize_def cells_mem)
qed

lemma foreground_distinct: "distinct (foreground img m)"
  by (simp add: foreground_def cells_distinct)

lemma adjacent_sym: "adjacent k p q \<longleftrightarrow> adjacent k q p"
  by (auto simp: adjacent_def Let_def abs_minus_commute add.commute)

lemma connected_8_symp: "symp connected_8"
  using adjacent_sym by (auto simp: symp_def connected_8_def)

lemma same_plateau_symp: "symp (same_plateau k)"
  using adjacent_sym by (auto simp: symp_def same_plateau_def)

lemma set_cells: "set (cells img) = image_cells img"
  by (auto simp: image_cells_def cells_mem)

lemma set_foreground: "set (foreground img (binarize img thr)) = foreground_cells img thr"
  by (auto simp: foreground_mem foreground_cells_def set_cells)

lemma set_maxima: "set (maxima img k thr) = local_maxima_cells img k thr"
  by (auto simp: maxima_def is_local_max_def neighbours_def list_all_iff
        local_maxima_cells_def set_cells)

lemma maxima_distinct: "distinct (maxima img k thr)"
  by (simp add: maxima_def cells_distinct)

lemma weighted_centroid_sum:
  "distinct cs \<Longrightarrow>
     weighted_centroid axis cs
       = quotient (\<Sum>a\<in>set cs. real (axis (fst a)) * snd a) (\<Sum>a\<in>set cs. snd a)"
  by (simp add: weighted_centroid_def case_prod_unfold sum_list_distinct_conv_sum_set)

lemmas caller_eval =
  ufish_call_spots_cc_center_def ufish_call_spots_local_maxima_def threshold_value_def
  binarize_def foreground_def cells_def connected_8_def adjacent_def label_components_step
  grow_unfold cc_spot_def weighted_centroid_def quotient_def maxima_def is_local_max_def
  neighbours_def same_plateau_def plateau_spot_def mean_coordinate_def
  zero_level_def first_value_def

subsection \<open>One Spot per connected component\<close>

text \<open>
  Claim C1. For every image and every valid threshold, the connected-component caller
  returns a table. Its rows are the Spots of a list of components without repetition that
  holds exactly the connected components (8-connectivity) of the foreground whose pixel
  count is at least \<^verbatim>\<open>cc_size_thresh\<close>; and on each axis the coordinate of a row is the
  quotient of the sum of coordinate times intensity by the sum of intensity over the
  pixels of its component, the intensities being those of the image (a cell of the
  foreground carries \<open>img ! r ! c\<close>).
\<close>

theorem cc_center_one_spot_per_component:
  assumes thr: "threshold_value otsu img binary_threshold = Inr thr"
  shows "\<exists>cs. ufish_call_spots_cc_center otsu inten img binary_threshold cc_size_thresh
             = Inr (map (cc_spot (inten img)) cs)
         \<and> distinct (map set cs)
         \<and> set (map set cs)
             = {C \<in> components connected_8 (foreground_cells img thr).
                  cc_size_thresh \<le> int (card C)}
         \<and> (\<forall>c\<in>set cs.
               axis_0 (cc_spot (inten img) c)
                 = quotient (\<Sum>a\<in>set c. real (fst (fst a)) * snd a) (\<Sum>a\<in>set c. snd a)
               \<and> axis_1 (cc_spot (inten img) c)
                 = quotient (\<Sum>a\<in>set c. real (snd (fst a)) * snd a) (\<Sum>a\<in>set c. snd a))"
proof -
  let ?all = "label_components connected_8 (foreground img (binarize img thr))"
  let ?cs = "filter (\<lambda>cs. cc_size_thresh \<le> int (length cs)) ?all"
  have lab: "set (map set ?all) = components connected_8 (foreground_cells img thr)"
    "distinct (map set ?all)"
    "\<forall>c\<in>set ?all. c \<noteq> [] \<and> distinct c \<and> set c \<subseteq> foreground_cells img thr"
    using label_components_correct [OF connected_8_symp foreground_distinct,
        of img "binarize img thr"]
    by (simp_all add: set_foreground)
  have call: "ufish_call_spots_cc_center otsu inten img binary_threshold cc_size_thresh
      = Inr (map (cc_spot (inten img)) ?cs)"
    by (simp add: ufish_call_spots_cc_center_def thr)
  have dist: "distinct (map set ?cs)"
    using lab(2) by (rule distinct_map_filter)
  have len: "int (length c) = int (card (set c))" if "c \<in> set ?all" for c
    using that lab(3) by (simp add: distinct_card)
  have sets: "set (map set ?cs)
      = {C \<in> components connected_8 (foreground_cells img thr). cc_size_thresh \<le> int (card C)}"
  proof -
    have "set (map set ?cs) = {C \<in> set (map set ?all). cc_size_thresh \<le> int (card C)}"
      using len by auto
    with lab(1) show ?thesis by simp
  qed
  have coords: "\<forall>c\<in>set ?cs.
       axis_0 (cc_spot (inten img) c)
         = quotient (\<Sum>a\<in>set c. real (fst (fst a)) * snd a) (\<Sum>a\<in>set c. snd a)
       \<and> axis_1 (cc_spot (inten img) c)
         = quotient (\<Sum>a\<in>set c. real (snd (fst a)) * snd a) (\<Sum>a\<in>set c. snd a)"
    using lab(3) by (auto simp: cc_spot_def weighted_centroid_sum)
  from call dist sets coords show ?thesis by blast
qed

theorem cc_center_one_spot_per_component_witness:
  "threshold_value zero_level two_blobs (Fixed 1) = Inr 1
   \<and> ufish_call_spots_cc_center zero_level first_value two_blobs (Fixed 1) 2
       = Inr [\<lparr>axis_0 = Some (1 / 4), axis_1 = Some 1, intensity = 9\<rparr>]
   \<and> card {C \<in> components connected_8 (foreground_cells two_blobs 1). 2 \<le> int (card C)} = 1"
proof -
  have thr: "threshold_value zero_level two_blobs (Fixed 1) = Inr 1"
    by (simp add: threshold_value_def)
  have call: "ufish_call_spots_cc_center zero_level first_value two_blobs (Fixed 1) 2
       = Inr [\<lparr>axis_0 = Some (1 / 4), axis_1 = Some 1, intensity = 9\<rparr>]"
    by (simp add: caller_eval two_blobs_def)
  from cc_center_one_spot_per_component [OF thr, of first_value 2] obtain cs where
    cs: "ufish_call_spots_cc_center zero_level first_value two_blobs (Fixed 1) 2
           = Inr (map (cc_spot (first_value two_blobs)) cs)"
      "distinct (map set cs)"
      "set (map set cs)
         = {C \<in> components connected_8 (foreground_cells two_blobs 1). 2 \<le> int (card C)}"
    by blast
  from cs(1) call have "map (cc_spot (first_value two_blobs)) cs
      = [\<lparr>axis_0 = Some (1 / 4), axis_1 = Some 1, intensity = 9\<rparr>]"
    by simp
  from arg_cong [OF this, of length] have "length (map set cs) = 1" by simp
  with distinct_card [OF cs(2)] cs(3)
  have "card {C \<in> components connected_8 (foreground_cells two_blobs 1). 2 \<le> int (card C)} = 1"
    by simp
  with thr call show ?thesis by simp
qed

subsection \<open>Raising the intensity threshold\<close>

lemma plateau_value:
  assumes "b \<in> component_of (same_plateau k) U a"
  shows "snd b = snd a"
proof -
  from assms have "(a, b) \<in> (links (same_plateau k) U)\<^sup>*" by (simp add: component_of_def)
  then show ?thesis
    by (induction rule: rtrancl_induct) (auto simp: links_def same_plateau_def)
qed

lemma plateau_above:
  assumes a: "a \<in> U" and t: "t < snd a"
  shows "component_of (same_plateau k) {b \<in> U. t < snd b} a = component_of (same_plateau k) U a"
proof (rule set_eqI)
  fix c
  let ?R = "same_plateau k"
  let ?W = "{b \<in> U. t < snd b}"
  show "c \<in> component_of ?R ?W a \<longleftrightarrow> c \<in> component_of ?R U a"
  proof
    assume "c \<in> component_of ?R ?W a"
    then have "(a, c) \<in> (links ?R ?W)\<^sup>*" by (simp add: component_of_def)
    moreover have "?W \<subseteq> U" by blast
    ultimately have "(a, c) \<in> (links ?R U)\<^sup>*"
      using rtrancl_mono [OF links_mono, of ?W U ?R] by blast
    then show "c \<in> component_of ?R U a" by (simp add: component_of_def)
  next
    assume "c \<in> component_of ?R U a"
    then have "(a, c) \<in> (links ?R U)\<^sup>*" by (simp add: component_of_def)
    then have "(a, c) \<in> (links ?R ?W)\<^sup>* \<and> c \<in> ?W"
    proof (induction rule: rtrancl_induct)
      case base
      from a t show ?case by simp
    next
      case (step y z)
      from step.hyps(2) have z: "z \<in> U" and yz: "?R y z" by (simp_all add: links_def)
      from yz have "snd z = snd y" by (simp add: same_plateau_def)
      with step.IH z have zW: "z \<in> ?W" by simp
      with step.IH yz have "(y, z) \<in> links ?R ?W" by (simp add: links_def)
      with step.IH have "(a, z) \<in> (links ?R ?W)\<^sup>*" by (auto intro: rtrancl_into_rtrancl)
      with zW show ?case by simp
    qed
    then show "c \<in> component_of ?R ?W a" by (simp add: component_of_def)
  qed
qed

lemma plateaus_above_subset:
  "components (same_plateau k) {b \<in> U. t < snd b} \<subseteq> components (same_plateau k) U"
proof
  fix C
  assume "C \<in> components (same_plateau k) {b \<in> U. t < snd b}"
  then obtain a where a: "a \<in> U" "t < snd a"
    and C: "C = component_of (same_plateau k) {b \<in> U. t < snd b} a"
    by (auto simp: components_def)
  from C plateau_above [OF a] have "C = component_of (same_plateau k) U a" by simp
  with a(1) show "C \<in> components (same_plateau k) U" by (auto simp: components_def)
qed

lemma local_maxima_cells_above:
  "t1 \<le> t2 \<Longrightarrow>
     local_maxima_cells img k t2 = {b \<in> local_maxima_cells img k t1. t2 < snd b}"
  by (auto simp: local_maxima_cells_def)

lemma plateaus_correct:
  "set (map set (label_components (same_plateau k) (maxima img k t)))
     = components (same_plateau k) (local_maxima_cells img k t)"
  "distinct (map set (label_components (same_plateau k) (maxima img k t)))"
  "\<forall>c\<in>set (label_components (same_plateau k) (maxima img k t)).
     c \<noteq> [] \<and> distinct c \<and> set c \<subseteq> local_maxima_cells img k t"
  using label_components_correct [OF same_plateau_symp maxima_distinct, of k img k t]
  by (simp_all add: set_maxima)

lemma local_maxima_count:
  "length (ufish_call_spots_local_maxima img k t)
     = card (components (same_plateau k) (local_maxima_cells img k t))"
proof -
  let ?cs = "label_components (same_plateau k) (maxima img k t)"
  have "card (components (same_plateau k) (local_maxima_cells img k t))
      = card (set (map set ?cs))"
    by (simp only: plateaus_correct(1))
  also have "\<dots> = length (map set ?cs)"
    using plateaus_correct(2) by (rule distinct_card)
  finally show ?thesis by (simp add: ufish_call_spots_local_maxima_def)
qed

lemma image_cells_finite: "finite (image_cells img)"
  using set_cells [of img, symmetric] by simp

lemma local_maxima_cells_finite: "finite (local_maxima_cells img k t)"
  using set_maxima [of img k t, symmetric] by simp

text \<open>
  Claim C3. For a fixed image and connectivity and \<open>t1 \<le> t2\<close>, the local-maxima caller
  returns at most as many Spots for the intensity threshold \<open>t2\<close> as for \<open>t1\<close>.
\<close>

theorem intensity_threshold_monotone:
  assumes "t1 \<le> t2"
  shows "length (ufish_call_spots_local_maxima img connectivity t2)
           \<le> length (ufish_call_spots_local_maxima img connectivity t1)"
proof -
  let ?R = "same_plateau connectivity"
  let ?M1 = "local_maxima_cells img connectivity t1"
  have "components ?R (local_maxima_cells img connectivity t2) \<subseteq> components ?R ?M1"
    unfolding local_maxima_cells_above [OF assms] by (rule plateaus_above_subset)
  moreover have "finite (components ?R ?M1)"
    by (simp add: components_def local_maxima_cells_finite)
  ultimately show ?thesis
    unfolding local_maxima_count by (rule card_mono [rotated])
qed

theorem intensity_threshold_monotone_witness:
  "(1::real) \<le> 7
   \<and> length (ufish_call_spots_local_maxima flat_patch 1 1) = 5
   \<and> length (ufish_call_spots_local_maxima flat_patch 1 7) = 1
   \<and> length (ufish_call_spots_local_maxima flat_patch 1 7)
       \<le> length (ufish_call_spots_local_maxima flat_patch 1 1)"
proof -
  have le: "(1::real) \<le> 7" by simp
  have l1: "length (ufish_call_spots_local_maxima flat_patch 1 1) = 5"
    by (simp add: caller_eval flat_patch_def)
  have l7: "length (ufish_call_spots_local_maxima flat_patch 1 7) = 1"
    by (simp add: caller_eval flat_patch_def)
  from intensity_threshold_monotone [OF le, of flat_patch 1] l1 l7 le show ?thesis by simp
qed

end
